theory Spec2Isabelle
  imports Main "HOL-Library.Multiset"
begin

section \<open>The priority queue of \<^verbatim>\<open>dijkstra.js\<close>\<close>

text \<open>
  The class \<^verbatim>\<open>PriorityQueue\<close> owns a backing array and a comparison function
  \<^verbatim>\<open>compare(child, parent)\<close>. The array is a list, indices are natural numbers
  (\<^verbatim>\<open>(pivotIndex - 1) >> 1\<close> is division by two for every index an array can have
  below \<open>2^31\<close>), and every method returns the updated object. JavaScript's
  \<^verbatim>\<open>null\<close> result of \<^verbatim>\<open>get\<close> and \<^verbatim>\<open>pop\<close> is \<open>None\<close>.
\<close>

record 'a PriorityQueue =
  queue :: "'a list"
  compare :: "'a \<Rightarrow> 'a \<Rightarrow> bool"

text \<open>The destructuring assignment \<^verbatim>\<open>[q[i], q[j]] = [q[j], q[i]]\<close>.\<close>

definition swap_at :: "'a list \<Rightarrow> nat \<Rightarrow> nat \<Rightarrow> 'a list" where
  "swap_at q i j = q[i := q ! j, j := q ! i]"

text \<open>
  The constructor: \<^verbatim>\<open>this.queue = [...queue||[]]\<close>, and the default parameter
  \<^verbatim>\<open>compare=(child, parent) => child < parent\<close>, taken when no comparator is passed.
\<close>

definition PriorityQueue_new ::
  "'a::ord list option \<Rightarrow> ('a \<Rightarrow> 'a \<Rightarrow> bool) option \<Rightarrow> 'a PriorityQueue" where
  "PriorityQueue_new q c =
     \<lparr>queue = (case q of None \<Rightarrow> [] | Some xs \<Rightarrow> xs),
      compare = (case c of None \<Rightarrow> (\<lambda>child parent. child < parent) | Some f \<Rightarrow> f)\<rparr>"

definition MinQueue :: "'a::ord list option \<Rightarrow> 'a PriorityQueue" where
  "MinQueue q = PriorityQueue_new q (Some (\<lambda>child parent. child < parent))"

definition MaxQueue :: "'a::ord list option \<Rightarrow> 'a PriorityQueue" where
  "MaxQueue q = PriorityQueue_new q (Some (\<lambda>child parent. child > parent))"

definition length_pq :: "'a PriorityQueue \<Rightarrow> nat" where
  "length_pq pq = length (queue pq)"

text \<open>
  The loop of \<^verbatim>\<open>_pushBalance\<close>, from \<^verbatim>\<open>pivotIndex\<close> up to the root. It never
  leaves early: the pivot always becomes the parent.
\<close>

function pushBalance_loop :: "('a \<Rightarrow> 'a \<Rightarrow> bool) \<Rightarrow> 'a list \<Rightarrow> nat \<Rightarrow> 'a list" where
  "pushBalance_loop cmp q pivotIndex =
     (if pivotIndex > 0 then
        (let parentIndex = (pivotIndex - 1) div 2;
             leftIndex = (if pivotIndex mod 2 = 1 then pivotIndex else pivotIndex - 1);
             rightIndex = (if pivotIndex mod 2 = 0 then pivotIndex else pivotIndex + 1);
             childIndex = (if rightIndex \<ge> length q \<or> cmp (q ! leftIndex) (q ! rightIndex)
                           then leftIndex else rightIndex);
             q' = (if cmp (q ! childIndex) (q ! parentIndex)
                   then swap_at q parentIndex childIndex else q)
         in pushBalance_loop cmp q' parentIndex)
      else q)"
  by pat_completeness auto
termination
  by (relation "measure (\<lambda>(cmp, q, pivotIndex). pivotIndex)") auto

declare pushBalance_loop.simps [simp del]

definition pushBalance :: "('a \<Rightarrow> 'a \<Rightarrow> bool) \<Rightarrow> 'a list \<Rightarrow> 'a list" where
  "pushBalance cmp q = pushBalance_loop cmp q (length q - 1)"

text \<open>
  The loop of \<^verbatim>\<open>_popBalance\<close>. The condition \<^verbatim>\<open>pivotIndex < this.queue.length - 1\<close>
  is over the integers (the right side is \<open>-1\<close> on the empty array); the pivot
  \<^verbatim>\<open>Infinity\<close>, taken when the left child is out of bounds, ends the loop.
\<close>

function popBalance_loop :: "('a \<Rightarrow> 'a \<Rightarrow> bool) \<Rightarrow> 'a list \<Rightarrow> nat \<Rightarrow> 'a list" where
  "popBalance_loop cmp q pivotIndex =
     (if int pivotIndex < int (length q) - 1 then
        (let leftIndex = ((pivotIndex + 1) * 2) - 1;
             rightIndex = (pivotIndex + 1) * 2
         in if leftIndex < length q then
              (let childIndex = (if rightIndex \<ge> length q \<or> cmp (q ! leftIndex) (q ! rightIndex)
                                 then leftIndex else rightIndex);
                   q' = (if cmp (q ! childIndex) (q ! pivotIndex)
                         then swap_at q pivotIndex childIndex else q)
               in popBalance_loop cmp q' childIndex)
            else q)
      else q)"
  by pat_completeness auto
termination
  by (relation "measure (\<lambda>(cmp, q, pivotIndex). length q - pivotIndex)")
    (auto simp: swap_at_def)

declare popBalance_loop.simps [simp del]

text \<open>
  \<^verbatim>\<open>_popBalance\<close>: the last element leaves the array (\<^verbatim>\<open>this.queue.pop()\<close>, which
  does nothing on the empty array) and is written at the root when elements remain.
\<close>

definition popBalance :: "('a \<Rightarrow> 'a \<Rightarrow> bool) \<Rightarrow> 'a list \<Rightarrow> 'a list" where
  "popBalance cmp q =
     (case q of
        [] \<Rightarrow> popBalance_loop cmp [] 0
      | _ # _ \<Rightarrow>
          (let newRoot = last q;
               q1 = butlast q;
               q2 = (if length q1 > 0 then q1[0 := newRoot] else q1)
           in popBalance_loop cmp q2 0))"

definition push :: "'a PriorityQueue \<Rightarrow> 'a \<Rightarrow> 'a PriorityQueue" where
  "push pq v = pq\<lparr>queue := pushBalance (compare pq) (queue pq @ [v])\<rparr>"

definition get :: "'a PriorityQueue \<Rightarrow> 'a option" where
  "get pq = (if length (queue pq) > 0 then Some (queue pq ! 0) else None)"

definition pop :: "'a PriorityQueue \<Rightarrow> 'a option \<times> 'a PriorityQueue" where
  "pop pq =
     (if length (queue pq) > 0
      then (Some (queue pq ! 0), pq\<lparr>queue := popBalance (compare pq) (queue pq)\<rparr>)
      else (None, pq))"

text \<open>Sequences of calls on one queue, with the value each call returns.\<close>

datatype 'a pq_op = Push 'a | Pop | Get

fun apply_op :: "'a PriorityQueue \<Rightarrow> 'a pq_op \<Rightarrow> 'a option \<times> 'a PriorityQueue" where
  "apply_op pq (Push v) = (None, push pq v)"
| "apply_op pq Pop = pop pq"
| "apply_op pq Get = (get pq, pq)"

fun run_ops :: "'a PriorityQueue \<Rightarrow> 'a pq_op list \<Rightarrow> 'a option list \<times> 'a PriorityQueue" where
  "run_ops pq [] = ([], pq)"
| "run_ops pq (x # xs) =
     (let (r, pq1) = apply_op pq x; (rs, pq2) = run_ops pq1 xs in (r # rs, pq2))"

text \<open>The heap property of the backing array, with \<open>parent i = (i - 1) div 2\<close>.\<close>

definition heap_property :: "('a \<Rightarrow> 'a \<Rightarrow> bool) \<Rightarrow> 'a list \<Rightarrow> bool" where
  "heap_property cmp q = (\<forall>i \<in> {1..<length q}. \<not> cmp (q ! i) (q ! ((i - 1) div 2)))"


text \<open>
  JavaScript's numbers with the value that no comparison orders: the integers and
  \<^verbatim>\<open>NaN\<close>. The operators \<^verbatim>\<open><\<close> and \<^verbatim>\<open><=\<close> are false as soon as one side is
  \<^verbatim>\<open>NaN\<close>.
\<close>

datatype number = Num int | NaN

instantiation number :: ord
begin

definition less_number :: "number \<Rightarrow> number \<Rightarrow> bool" where
  "less_number a b = (case (a, b) of (Num x, Num y) \<Rightarrow> x < y | _ \<Rightarrow> False)"

definition less_eq_number :: "number \<Rightarrow> number \<Rightarrow> bool" where
  "less_eq_number a b = (case (a, b) of (Num x, Num y) \<Rightarrow> x \<le> y | _ \<Rightarrow> False)"

instance ..

end

text \<open>
  A strict order: irreflexive and transitive. The comparator
  \<^verbatim>\<open>(c, p) => c !== p && p % c === 0\<close> on positive integers is one.
\<close>

definition strict_order :: "('a \<Rightarrow> 'a \<Rightarrow> bool) \<Rightarrow> bool" where
  "strict_order cmp \<longleftrightarrow>
     (\<forall>x. \<not> cmp x x) \<and>
     (\<forall>x y z. cmp x y \<and> cmp y z \<longrightarrow> cmp x z)"

definition proper_divisor :: "nat \<Rightarrow> nat \<Rightarrow> bool" where
  "proper_divisor c p \<longleftrightarrow> c \<noteq> p \<and> p mod c = 0"

text \<open>
  The comparators on which the balancing works: strict orders in which "neither is
  before the other" is transitive as well. Every strict total order is one, so are the
  two presets on numbers other than \<^verbatim>\<open>NaN\<close>, and so is a comparison of keys by a
  fixed map.
\<close>

definition strict_weak_order :: "('a \<Rightarrow> 'a \<Rightarrow> bool) \<Rightarrow> bool" where
  "strict_weak_order cmp \<longleftrightarrow>
     (\<forall>x. \<not> cmp x x) \<and>
     (\<forall>x y z. cmp x y \<and> cmp y z \<longrightarrow> cmp x z) \<and>
     (\<forall>x y z. cmp x z \<longrightarrow> cmp x y \<or> cmp y z)"


section \<open>The graph\<close>

text \<open>
  \<^verbatim>\<open>Vertex\<close> objects are shared: an \<^verbatim>\<open>Edge\<close> and the lookup table hold references to
  them, and \<^verbatim>\<open>Graph.create\<close> mutates them after they have been stored. The model keeps
  an explicit object store: a list of vertex objects in allocation order, a reference
  being the index of its object. An edge holds the reference of its destination vertex.
  Vertex keys are values of a type \<open>'k\<close> on which property lookup is plain equality
  (numbers or strings that name no inherited property); costs are integers of absolute
  value at most \<open>2^53\<close>, which JavaScript's numbers represent exactly.
\<close>

record Edge =
  vertex :: nat
  cost :: int

record 'k Vertex =
  val :: 'k
  edges :: "Edge list"

record 'k Graph =
  heap :: "'k Vertex list"
  lookup :: "'k \<rightharpoonup> nat"

text \<open>\<^verbatim>\<open>new Vertex(val)\<close>: a fresh object with no edges, and its reference.\<close>

definition new_Vertex :: "'k \<Rightarrow> 'k Vertex list \<Rightarrow> nat \<times> 'k Vertex list" where
  "new_Vertex v h = (length h, h @ [\<lparr>val = v, edges = []\<rparr>])"

text \<open>
  One round of the loop of \<^verbatim>\<open>Graph.create\<close>. Both
  \<^verbatim>\<open>graph.lookup[src] || new Vertex(src)\<close> and \<^verbatim>\<open>graph.lookup[dst] || new Vertex(dst)\<close>
  read the table before either vertex is stored in it.
\<close>

fun create_step :: "'k Graph \<Rightarrow> 'k \<times> 'k \<times> int \<Rightarrow> 'k Graph" where
  "create_step graph (src, dst, c) =
     (let (srcVertex, h1) = (case lookup graph src of
                               Some a \<Rightarrow> (a, heap graph)
                             | None \<Rightarrow> new_Vertex src (heap graph));
          (dstVertex, h2) = (case lookup graph dst of
                               Some a \<Rightarrow> (a, h1)
                             | None \<Rightarrow> new_Vertex dst h1);
          h3 = h2[srcVertex := (h2 ! srcVertex)
                    \<lparr>edges := edges (h2 ! srcVertex) @ [\<lparr>vertex = dstVertex, cost = c\<rparr>]\<rparr>]
      in \<lparr>heap = h3, lookup = (lookup graph)(src \<mapsto> srcVertex, dst \<mapsto> dstVertex)\<rparr>)"

definition create :: "('k \<times> 'k \<times> int) list \<Rightarrow> 'k Graph" where
  "create connections = foldl create_step \<lparr>heap = [], lookup = Map.empty\<rparr> connections"




text \<open>
  The vertex objects a traversal can reach from \<open>source\<close>, along edges. In a store of
  JavaScript objects every reference is to an object: \<open>wf_heap\<close>. The calls of the
  callback on one vertex are \<open>calls_of\<close>; a vertex that has been processed once has
  one call for each of its edges, in order.
\<close>

inductive_set reachable :: "'k Vertex list \<Rightarrow> nat \<Rightarrow> nat set" for h :: "'k Vertex list" and source :: nat where
  start: "source \<in> reachable h source"
| step: "a \<in> reachable h source \<Longrightarrow> a < length h \<Longrightarrow> e \<in> set (edges (h ! a)) \<Longrightarrow>
         vertex e \<in> reachable h source"






section \<open>Dijkstra\<close>

text \<open>
  The comparator of \<^verbatim>\<open>Graph.dijkstra\<close> closes over the variable \<^verbatim>\<open>distance\<close> and reads
  it at every call: it is a function of the current distance map. A comparison with
  \<^verbatim>\<open>undefined\<close> is false.
\<close>

definition distance_compare :: "'k Vertex list \<Rightarrow> ('k \<rightharpoonup> int) \<Rightarrow> nat \<Rightarrow> nat \<Rightarrow> bool" where
  "distance_compare h distance child parent =
     (case (distance (val (h ! child)), distance (val (h ! parent))) of
        (Some a, Some b) \<Rightarrow> a < b
      | _ \<Rightarrow> False)"

text \<open>
  The loop over \<^verbatim>\<open>currVert.edges\<close>, for the vertex with key \<open>k\<close>: relax, then push
  the destination on the queue, whose comparator by then reads the updated map. \<open>None\<close>
  stands for what JavaScript cannot reach from \<^verbatim>\<open>dijkstra(source)\<close>: a reference to no
  object, or a vertex taken from the queue that has no distance.

  The sum \<^verbatim>\<open>distance[currVert.val] + edge.cost\<close> is a sum of doubles. It is the sum of
  the integers as long as both and the result are at most \<open>2^53\<close> in absolute value;
  beyond that JavaScript rounds, and \<open>js_add\<close> gives \<open>None\<close>: such runs are outside
  the model.
\<close>

definition js_add :: "int \<Rightarrow> int \<Rightarrow> int option" where
  "js_add a b =
     (if \<bar>a\<bar> \<le> 2 ^ 53 \<and> \<bar>b\<bar> \<le> 2 ^ 53 \<and> \<bar>a + b\<bar> \<le> 2 ^ 53 then Some (a + b) else None)"

fun relax_edges ::
  "'k Vertex list \<Rightarrow> 'k \<Rightarrow> Edge list \<Rightarrow> ('k \<rightharpoonup> int) \<times> nat list \<Rightarrow>
   (('k \<rightharpoonup> int) \<times> nat list) option" where
  "relax_edges h k [] (distance, q) = Some (distance, q)"
| "relax_edges h k (edge # es) (distance, q) =
     (if vertex edge \<ge> length h then None
      else case distance k of
        None \<Rightarrow> None
      | Some dk \<Rightarrow>
          (case js_add dk (cost edge) of
             None \<Rightarrow> None
           | Some candidate \<Rightarrow>
               (let kv = val (h ! vertex edge);
                    distance' = (if (case distance kv of None \<Rightarrow> True | Some dv \<Rightarrow> dv > candidate)
                                 then distance(kv \<mapsto> candidate) else distance);
                    q' = queue (push \<lparr>queue = q, compare = distance_compare h distance'\<rparr>
                                  (vertex edge))
                in relax_edges h k es (distance', q'))))"

text \<open>One round of the \<^verbatim>\<open>while\<close> loop, on the state \<open>(visited, distance, priorityQ)\<close>.\<close>

fun dijkstra_iter ::
  "'k Vertex list \<Rightarrow> 'k set \<times> ('k \<rightharpoonup> int) \<times> nat list \<Rightarrow>
   ('k set \<times> ('k \<rightharpoonup> int) \<times> nat list) option" where
  "dijkstra_iter h (visited, distance, q) =
     (case pop \<lparr>queue = q, compare = distance_compare h distance\<rparr> of
        (None, _) \<Rightarrow> None
      | (Some currVert, priorityQ) \<Rightarrow>
          if currVert \<ge> length h then None
          else if val (h ! currVert) \<notin> visited then
            (case relax_edges h (val (h ! currVert)) (edges (h ! currVert))
                    (distance, queue priorityQ) of
               None \<Rightarrow> None
             | Some (distance', q') \<Rightarrow> Some (insert (val (h ! currVert)) visited, distance', q'))
          else Some (visited, distance, queue priorityQ))"

fun dijkstra_iters ::
  "nat \<Rightarrow> 'k Vertex list \<Rightarrow> 'k set \<times> ('k \<rightharpoonup> int) \<times> nat list \<Rightarrow>
   ('k set \<times> ('k \<rightharpoonup> int) \<times> nat list) option" where
  "dijkstra_iters 0 h s = Some s"
| "dijkstra_iters (Suc n) h s =
     (case dijkstra_iter h s of None \<Rightarrow> None | Some s' \<Rightarrow> dijkstra_iters n h s')"


text \<open>
  The \<^verbatim>\<open>while (priorityQ.length > 0)\<close> loop and \<^verbatim>\<open>Graph.dijkstra\<close>: the queue starts
  as \<^verbatim>\<open>[source]\<close>, the distance map as \<^verbatim>\<open>{[source.val]: 0}\<close>.
\<close>

function dijkstra_loop ::
  "'k Vertex list \<Rightarrow> 'k set \<times> ('k \<rightharpoonup> int) \<times> nat list \<Rightarrow> ('k \<rightharpoonup> int) option" where
  "dijkstra_loop h (visited, distance, q) =
     (if length q > 0 then
        (case dijkstra_iter h (visited, distance, q) of
           None \<Rightarrow> None
         | Some s \<Rightarrow> dijkstra_loop h s)
      else Some distance)"
  by pat_completeness auto
termination
proof (relation "measures [\<lambda>(h, visited, distance, q). card (val ` set h - visited),
                           \<lambda>(h, visited, distance, q). length q]", goal_cases)
  case 1
  show ?case by simp
next
  case (2 h visited distance q s)
  have len_loop: "length (popBalance_loop cmp xs p) = length xs"
    for cmp and xs :: "nat list" and p
  proof (induction cmp xs p rule: popBalance_loop.induct)
    case (1 cmp xs p)
    show ?case
      by (subst popBalance_loop.simps) (use 1 in \<open>auto simp: Let_def swap_at_def\<close>)
  qed
  have len: "length (popBalance cmp xs) < length xs" if "xs \<noteq> []"
    for cmp and xs :: "nat list"
    using that by (cases xs) (simp_all add: popBalance_def Let_def len_loop)
  from 2 have ne: "q \<noteq> []" by auto
  let ?cur = "q ! 0"
  let ?cmp = "distance_compare h distance"
  from 2(2) ne consider
    (fresh) d' q' where "?cur < length h" "val (h ! ?cur) \<notin> visited"
      "s = (insert (val (h ! ?cur)) visited, d', q')"
    | (stale) "s = (visited, distance, popBalance ?cmp q)"
    by (auto simp: pop_def split: if_splits option.splits)
  then show ?case
  proof cases
    case fresh
    then have "val (h ! ?cur) \<in> val ` set h - visited" by simp
    then have "card (val ` set h - visited - {val (h ! ?cur)}) < card (val ` set h - visited)"
      by (intro card_Diff1_less) auto
    moreover have "val ` set h - insert (val (h ! ?cur)) visited
        = val ` set h - visited - {val (h ! ?cur)}" by auto
    ultimately show ?thesis using fresh by simp
  next
    case stale
    then show ?thesis using len[OF ne, of ?cmp] by simp
  qed
qed

definition dijkstra :: "'k Vertex list \<Rightarrow> nat \<Rightarrow> ('k \<rightharpoonup> int) option" where
  "dijkstra h source =
     (if source \<ge> length h then None
      else dijkstra_loop h ({}, [val (h ! source) \<mapsto> 0], [source]))"



text \<open>
  The driver calls \<^verbatim>\<open>Graph.dijkstra(graph.lookup[1])\<close>: Dijkstra from the vertex the
  table holds under a key. A key the table does not hold gives \<^verbatim>\<open>undefined\<close>, on which
  \<^verbatim>\<open>source.val\<close> throws: \<open>None\<close>.
\<close>

definition dijkstra_at :: "'k Graph \<Rightarrow> 'k \<Rightarrow> ('k \<rightharpoonup> int) option" where
  "dijkstra_at graph k =
     (case lookup graph k of None \<Rightarrow> None | Some source \<Rightarrow> dijkstra (heap graph) source)"

definition distance_at :: "'k Graph \<Rightarrow> 'k \<Rightarrow> 'k \<Rightarrow> int option" where
  "distance_at graph k t = (case dijkstra_at graph k of None \<Rightarrow> None | Some distance \<Rightarrow> distance t)"

text \<open>
  A walk in the object graph: from the vertex \<open>a\<close> along the given edges, each an edge
  of the vertex reached so far. The result is the vertex where it ends and the sum of
  the costs.
\<close>

fun walk_cost :: "'k Vertex list \<Rightarrow> nat \<Rightarrow> Edge list \<Rightarrow> (nat \<times> int) option" where
  "walk_cost h a [] = (if a < length h then Some (a, 0) else None)"
| "walk_cost h a (e # es) =
     (if a < length h \<and> e \<in> set (edges (h ! a))
      then (case walk_cost h (vertex e) es of
              None \<Rightarrow> None
            | Some (b, c) \<Rightarrow> Some (b, cost e + c))
      else None)"

text \<open>The outgoing edges of the vertex stored under a key, as (destination key, cost).\<close>

definition out_edges :: "'k Graph \<Rightarrow> 'k \<Rightarrow> ('k \<times> int) list" where
  "out_edges graph k =
     (case lookup graph k of
        None \<Rightarrow> []
      | Some a \<Rightarrow> map (\<lambda>e. (val (heap graph ! vertex e), cost e)) (edges (heap graph ! a)))"

text \<open>The edge list of the driver, and two graphs on which stale queue entries matter.\<close>

definition scenario :: "(int \<times> int \<times> int) list" where
  "scenario = [(1, 2, 2), (1, 3, 4), (2, 4, 7), (2, 3, 1), (3, 5, 3), (4, 6, 1), (5, 4, 2), (5, 6, 5)]"

definition stale_root_graph :: "(int \<times> int \<times> int) list" where
  "stale_root_graph = [(1, 7, 1), (8, 6, 1), (7, 6, 3), (7, 8, 1), (1, 8, 4), (1, 2, 3), (1, 4, 3),
                       (1, 3, 3)]"

definition stale_graph :: "(int \<times> int \<times> int) list" where
  "stale_graph = [(3, 4, 1), (2, 3, 5), (4, 8, 1), (2, 9, 5), (10, 8, 4), (10, 3, 1), (1, 2, 1),
                  (2, 6, 4), (3, 9, 4), (8, 9, 1), (1, 10, 1)]"

section \<open>Balancing keeps the heap property\<close>



definition push_inv :: "('a \<Rightarrow> 'a \<Rightarrow> bool) \<Rightarrow> 'a list \<Rightarrow> nat \<Rightarrow> bool" where
  "push_inv cmp q p \<longleftrightarrow>
     (\<forall>i. 0 < i \<and> i < length q \<and> i \<noteq> p \<longrightarrow> \<not> cmp (q ! i) (q ! ((i - 1) div 2))) \<and>
     (0 < p \<longrightarrow> (\<forall>c. 0 < c \<and> c < length q \<and> (c - 1) div 2 = p \<longrightarrow>
                     \<not> cmp (q ! c) (q ! ((p - 1) div 2))))"

lemma swo_asym: "strict_weak_order cmp \<Longrightarrow> cmp x y \<Longrightarrow> \<not> cmp y x"
  unfolding strict_weak_order_def by blast

lemma swo_trans: "strict_weak_order cmp \<Longrightarrow> cmp x y \<Longrightarrow> cmp y z \<Longrightarrow> cmp x z"
  unfolding strict_weak_order_def by blast

lemma swo_negtrans: "strict_weak_order cmp \<Longrightarrow> \<not> cmp x y \<Longrightarrow> \<not> cmp y z \<Longrightarrow> \<not> cmp x z"
  unfolding strict_weak_order_def by blast

lemma length_swap_at: "length (swap_at q i j) = length q"
  by (simp add: swap_at_def)

lemma nth_swap_at:
  "i < length q \<Longrightarrow> j < length q \<Longrightarrow>
   swap_at q i j ! m = (if m = j then q ! i else if m = i then q ! j else q ! m)"
  by (simp add: swap_at_def nth_list_update)

lemma mset_swap_at: "i < length q \<Longrightarrow> j < length q \<Longrightarrow> mset (swap_at q i j) = mset q"
  unfolding swap_at_def by (metis mset_swap)

lemma parent_eq_iff:
  "0 < i \<Longrightarrow> ((i - 1) div 2 = k) = (i = 2 * k + 1 \<or> i = 2 * k + (2::nat))"
  by arith

lemma push_inv_swap:
  assumes swo: "strict_weak_order cmp"
    and p: "0 < p" "p < length q"
    and inv: "push_inv cmp q p"
    and k: "k = (p - 1) div 2"
    and lt: "cmp (q ! p) (q ! k)"
    and sib: "\<And>s. 0 < s \<Longrightarrow> s < length q \<Longrightarrow> s \<noteq> p \<Longrightarrow> (s - 1) div 2 = k \<Longrightarrow> \<not> cmp (q ! s) (q ! p)"
  shows "push_inv cmp (swap_at q k p) k"
proof -
  have kp: "k < p" "k < length q" using p k by auto
  have inv1: "\<And>i. 0 < i \<Longrightarrow> i < length q \<Longrightarrow> i \<noteq> p \<Longrightarrow> \<not> cmp (q ! i) (q ! ((i - 1) div 2))"
    using inv unfolding push_inv_def by blast
  have inv2: "\<And>c. 0 < c \<Longrightarrow> c < length q \<Longrightarrow> (c - 1) div 2 = p \<Longrightarrow> \<not> cmp (q ! c) (q ! k)"
    using inv p k unfolding push_inv_def by blast
  have nth: "\<And>m. swap_at q k p ! m = (if m = p then q ! k else if m = k then q ! p else q ! m)"
    using nth_swap_at[OF kp(2) p(2)] by simp
  have part1: "\<not> cmp (swap_at q k p ! i) (swap_at q k p ! ((i - 1) div 2))"
    if i: "0 < i" "i < length q" "i \<noteq> k" for i
  proof -
    consider (a) "i = p" | (b) "i \<noteq> p" "(i - 1) div 2 = k" | (c) "(i - 1) div 2 = p"
      | (d) "i \<noteq> p" "(i - 1) div 2 \<noteq> k" "(i - 1) div 2 \<noteq> p" by blast
    then show ?thesis
    proof cases
      case a
      then show ?thesis using nth k kp swo_asym[OF swo lt] by simp
    next
      case b
      then show ?thesis using nth i kp sib[of i] by simp
    next
      case c
      then have "i \<noteq> p" "i \<noteq> k" using i kp by auto
      then show ?thesis using nth c kp inv2[of i] i by simp
    next
      case d
      then show ?thesis using nth i inv1[of i] by simp
    qed
  qed
  have part2: "\<not> cmp (swap_at q k p ! c) (swap_at q k p ! ((k - 1) div 2))"
    if c: "0 < k" "0 < c" "c < length q" "(c - 1) div 2 = k" for c
  proof -
    have pk: "(k - 1) div 2 < k" using c by auto
    then have g: "swap_at q k p ! ((k - 1) div 2) = q ! ((k - 1) div 2)"
      using nth kp by simp
    have kk: "\<not> cmp (q ! k) (q ! ((k - 1) div 2))"
      using inv1[of k] c kp by simp
    show ?thesis
    proof (cases "c = p")
      case True
      then show ?thesis using nth g kk by simp
    next
      case False
      have "c \<noteq> k" using c by auto
      have "\<not> cmp (q ! c) (q ! k)" using inv1[of c] c False by simp
      then have "\<not> cmp (q ! c) (q ! ((k - 1) div 2))" using swo_negtrans[OF swo _ kk] by blast
      then show ?thesis using nth g False \<open>c \<noteq> k\<close> by simp
    qed
  qed
  show ?thesis
    unfolding push_inv_def length_swap_at using part1 part2 by blast
qed

lemma push_inv_keep:
  assumes swo: "strict_weak_order cmp"
    and p: "0 < p" "p < length q"
    and inv: "push_inv cmp q p"
    and k: "k = (p - 1) div 2"
    and ge: "\<not> cmp (q ! p) (q ! k)"
  shows "push_inv cmp q k"
proof -
  have inv1: "\<And>i. 0 < i \<Longrightarrow> i < length q \<Longrightarrow> i \<noteq> p \<Longrightarrow> \<not> cmp (q ! i) (q ! ((i - 1) div 2))"
    using inv unfolding push_inv_def by blast
  have all: "\<not> cmp (q ! i) (q ! ((i - 1) div 2))" if "0 < i" "i < length q" for i
    using inv1[of i] that ge k by (cases "i = p") auto
  have part2: "\<not> cmp (q ! c) (q ! ((k - 1) div 2))"
    if c: "0 < k" "0 < c" "c < length q" "(c - 1) div 2 = k" for c
  proof -
    have "k < length q" using p k by auto
    then have "\<not> cmp (q ! k) (q ! ((k - 1) div 2))" using all[of k] c by simp
    moreover have "\<not> cmp (q ! c) (q ! k)" using all[of c] c by simp
    ultimately show ?thesis using swo_negtrans[OF swo] by blast
  qed
  show ?thesis unfolding push_inv_def using all part2 by blast
qed



definition push_next :: "('a \<Rightarrow> 'a \<Rightarrow> bool) \<Rightarrow> 'a list \<Rightarrow> nat \<Rightarrow> 'a list" where
  "push_next cmp q p =
     (let parentIndex = (p - 1) div 2;
          leftIndex = (if p mod 2 = 1 then p else p - 1);
          rightIndex = (if p mod 2 = 0 then p else p + 1);
          childIndex = (if rightIndex \<ge> length q \<or> cmp (q ! leftIndex) (q ! rightIndex)
                        then leftIndex else rightIndex)
      in (if cmp (q ! childIndex) (q ! parentIndex)
          then swap_at q parentIndex childIndex else q))"


lemma pushBalance_loop_unfold:
  "pushBalance_loop cmp q p =
     (if 0 < p then pushBalance_loop cmp (push_next cmp q p) ((p - 1) div 2) else q)"
  by (subst pushBalance_loop.simps) (simp add: push_next_def Let_def)

lemma length_push_next: "length (push_next cmp q p) = length q"
  by (simp add: push_next_def Let_def length_swap_at)

lemma push_next_odd:
  "p mod 2 = 1 \<Longrightarrow> push_next cmp q p =
     (let c = (if p + 1 \<ge> length q \<or> cmp (q ! p) (q ! (p + 1)) then p else p + 1)
      in if cmp (q ! c) (q ! ((p - 1) div 2)) then swap_at q ((p - 1) div 2) c else q)"
  by (simp add: push_next_def Let_def)

lemma push_next_even:
  "p mod 2 = 0 \<Longrightarrow> push_next cmp q p =
     (let c = (if p \<ge> length q \<or> cmp (q ! (p - 1)) (q ! p) then p - 1 else p)
      in if cmp (q ! c) (q ! ((p - 1) div 2)) then swap_at q ((p - 1) div 2) c else q)"
  by (simp add: push_next_def Let_def)

lemma push_inv_step:
  assumes swo: "strict_weak_order cmp"
    and p: "0 < p" "p < length q"
    and inv: "push_inv cmp q p"
  shows "push_inv cmp (push_next cmp q p) ((p - 1) div 2)"
proof -
  define k where "k = (p - 1) div 2"
  have pk: "p = 2 * k + 1 \<or> p = 2 * k + 2"
    using parent_eq_iff[OF p(1), of k] k_def by simp
  have sib: "s = 2 * k + 1 \<or> s = 2 * k + 2" if "0 < s" "(s - 1) div 2 = k" for s
    using parent_eq_iff[OF that(1), of k] that(2) by simp
  have inv1: "\<And>i. 0 < i \<Longrightarrow> i < length q \<Longrightarrow> i \<noteq> p \<Longrightarrow> \<not> cmp (q ! i) (q ! ((i - 1) div 2))"
    using inv unfolding push_inv_def by blast
  from pk show ?thesis
  proof
    assume pl: "p = 2 * k + 1"
    then have odd: "p mod 2 = 1" by simp
    note nx = push_next_odd[OF odd, of cmp q, folded k_def]
    have sk: "(p + 1 - 1) div 2 = k" using pl by simp
    have only: "s = p + 1" if "0 < s" "s \<noteq> p" "(s - 1) div 2 = k" for s
      using sib[OF that(1,3)] that(2) pl by simp
    show ?thesis
    proof (cases "p + 1 \<ge> length q \<or> cmp (q ! p) (q ! (p + 1))")
      case choose_p: True
      show ?thesis
      proof (cases "cmp (q ! p) (q ! k)")
        case True
        have "\<not> cmp (q ! s) (q ! p)"
          if s: "0 < s" "s < length q" "s \<noteq> p" "(s - 1) div 2 = k" for s
          using only[OF s(1,3,4)] s(2) choose_p swo_asym[OF swo] by auto
        then have "push_inv cmp (swap_at q k p) k"
          using push_inv_swap[OF swo p inv k_def True] by blast
        moreover have "push_next cmp q p = swap_at q k p"
          using choose_p True unfolding nx by (simp only: if_True Let_def)
        ultimately show ?thesis unfolding k_def by simp
      next
        case False
        have "push_inv cmp q k" using push_inv_keep[OF swo p inv k_def False] .
        moreover have "push_next cmp q p = q"
          using choose_p False unfolding nx by (simp only: if_True if_False Let_def)
        ultimately show ?thesis unfolding k_def by simp
      qed
    next
      case choose_s: False
      then have s: "p + 1 < length q" "\<not> cmp (q ! p) (q ! (p + 1))" by auto
      have sk': "\<not> cmp (q ! (p + 1)) (q ! k)" using inv1[of "p + 1"] s sk by simp
      have "\<not> cmp (q ! p) (q ! k)" using swo_negtrans[OF swo s(2) sk'] .
      then have "push_inv cmp q k" using push_inv_keep[OF swo p inv k_def] by blast
      moreover have "push_next cmp q p = q"
        using choose_s sk' unfolding nx by (simp only: if_False Let_def)
      ultimately show ?thesis unfolding k_def by simp
    qed
  next
    assume pr: "p = 2 * k + 2"
    then have even: "p mod 2 = 0" by simp
    have p2: "p \<ge> 2" using pr by simp
    note nx = push_next_even[OF even, of cmp q, folded k_def]
    have sk: "(p - 1 - 1) div 2 = k" using pr by simp
    have only: "s = p - 1" if "0 < s" "s \<noteq> p" "(s - 1) div 2 = k" for s
      using sib[OF that(1,3)] that(2) pr by simp
    have nge: "\<not> p \<ge> length q" using p by simp
    show ?thesis
    proof (cases "cmp (q ! (p - 1)) (q ! p)")
      case choose_s: True
      have sk': "\<not> cmp (q ! (p - 1)) (q ! k)" using inv1[of "p - 1"] p p2 sk by simp
      have "\<not> cmp (q ! p) (q ! k)" using swo_trans[OF swo choose_s] sk' by blast
      then have "push_inv cmp q k" using push_inv_keep[OF swo p inv k_def] by blast
      moreover have "push_next cmp q p = q"
        using choose_s sk' unfolding nx by (simp only: if_True if_False Let_def simp_thms)
      ultimately show ?thesis unfolding k_def by simp
    next
      case choose_p: False
      show ?thesis
      proof (cases "cmp (q ! p) (q ! k)")
        case True
        have "\<not> cmp (q ! s) (q ! p)"
          if s: "0 < s" "s < length q" "s \<noteq> p" "(s - 1) div 2 = k" for s
          using only[OF s(1,3,4)] choose_p by auto
        then have "push_inv cmp (swap_at q k p) k"
          using push_inv_swap[OF swo p inv k_def True] by blast
        moreover have "push_next cmp q p = swap_at q k p"
          using choose_p nge True unfolding nx by (simp only: if_True if_False Let_def simp_thms)
        ultimately show ?thesis unfolding k_def by simp
      next
        case False
        have "push_inv cmp q k" using push_inv_keep[OF swo p inv k_def False] .
        moreover have "push_next cmp q p = q"
          using choose_p nge False unfolding nx by (simp only: if_True if_False Let_def simp_thms)
        ultimately show ?thesis unfolding k_def by simp
      qed
    qed
  qed
qed

lemma length_pushBalance_loop: "length (pushBalance_loop cmp q p) = length q"
proof (induction p arbitrary: q rule: less_induct)
  case (less p)
  show ?case
  proof (cases "0 < p")
    case True
    then have "(p - 1) div 2 < p" by simp
    from less[OF this] show ?thesis
      by (subst pushBalance_loop_unfold) (simp add: True length_push_next)
  next
    case False
    then show ?thesis by (subst pushBalance_loop_unfold) simp
  qed
qed

lemma pushBalance_loop_heap:
  "strict_weak_order cmp \<Longrightarrow> p < length q \<Longrightarrow> push_inv cmp q p \<Longrightarrow>
   heap_property cmp (pushBalance_loop cmp q p)"
proof (induction p arbitrary: q rule: less_induct)
  case (less p)
  show ?case
  proof (cases "0 < p")
    case True
    then have lt: "(p - 1) div 2 < p" by simp
    have inv': "push_inv cmp (push_next cmp q p) ((p - 1) div 2)"
      using push_inv_step[OF less.prems(1) True less.prems(2,3)] .
    have "(p - 1) div 2 < length (push_next cmp q p)"
      using less.prems(2) lt by (simp add: length_push_next)
    from less.IH[OF lt less.prems(1) this inv'] show ?thesis
      by (subst pushBalance_loop_unfold) (simp add: True)
  next
    case False
    then have "p = 0" by simp
    then show ?thesis using less.prems(3)
      by (subst pushBalance_loop_unfold) (auto simp: push_inv_def heap_property_def)
  qed
qed




definition pop_inv :: "('a \<Rightarrow> 'a \<Rightarrow> bool) \<Rightarrow> 'a list \<Rightarrow> nat \<Rightarrow> bool" where
  "pop_inv cmp q p \<longleftrightarrow>
     (\<forall>i. 0 < i \<and> i < length q \<and> (i - 1) div 2 \<noteq> p \<longrightarrow> \<not> cmp (q ! i) (q ! ((i - 1) div 2))) \<and>
     (0 < p \<longrightarrow> (\<forall>c. 0 < c \<and> c < length q \<and> (c - 1) div 2 = p \<longrightarrow>
                     \<not> cmp (q ! c) (q ! ((p - 1) div 2))))"

definition pop_child :: "('a \<Rightarrow> 'a \<Rightarrow> bool) \<Rightarrow> 'a list \<Rightarrow> nat \<Rightarrow> nat" where
  "pop_child cmp q p =
     (if (p + 1) * 2 \<ge> length q \<or> cmp (q ! ((p + 1) * 2 - 1)) (q ! ((p + 1) * 2))
      then (p + 1) * 2 - 1 else (p + 1) * 2)"

definition pop_next :: "('a \<Rightarrow> 'a \<Rightarrow> bool) \<Rightarrow> 'a list \<Rightarrow> nat \<Rightarrow> 'a list" where
  "pop_next cmp q p =
     (if cmp (q ! pop_child cmp q p) (q ! p) then swap_at q p (pop_child cmp q p) else q)"


lemma popBalance_loop_unfold:
  "popBalance_loop cmp q p =
     (if (p + 1) * 2 - 1 < length q
      then popBalance_loop cmp (pop_next cmp q p) (pop_child cmp q p) else q)"
  by (subst popBalance_loop.simps) (auto simp: pop_next_def pop_child_def Let_def)

lemma length_pop_next: "length (pop_next cmp q p) = length q"
  by (simp add: pop_next_def length_swap_at)

lemma pop_child_cases:
  "pop_child cmp q p = (p + 1) * 2 - 1 \<or> pop_child cmp q p = (p + 1) * 2"
  by (simp add: pop_child_def)

lemma pop_child_bound: "(p + 1) * 2 - 1 < length q \<Longrightarrow> pop_child cmp q p < length q"
  by (auto simp: pop_child_def)

lemma pop_child_gt: "p < pop_child cmp q p"
  by (auto simp: pop_child_def)

lemma pop_inv_swap:
  assumes swo: "strict_weak_order cmp"
    and c: "0 < c" "c < length q" "(c - 1) div 2 = p"
    and inv: "pop_inv cmp q p"
    and lt: "cmp (q ! c) (q ! p)"
    and sib: "\<And>s. 0 < s \<Longrightarrow> s < length q \<Longrightarrow> s \<noteq> c \<Longrightarrow> (s - 1) div 2 = p \<Longrightarrow> \<not> cmp (q ! s) (q ! c)"
  shows "pop_inv cmp (swap_at q p c) c"
proof -
  have pc: "p < c" "p < length q" using c by auto
  have inv1: "\<And>i. 0 < i \<Longrightarrow> i < length q \<Longrightarrow> (i - 1) div 2 \<noteq> p \<Longrightarrow> \<not> cmp (q ! i) (q ! ((i - 1) div 2))"
    using inv unfolding pop_inv_def by blast
  have inv2: "\<And>s. 0 < p \<Longrightarrow> 0 < s \<Longrightarrow> s < length q \<Longrightarrow> (s - 1) div 2 = p \<Longrightarrow> \<not> cmp (q ! s) (q ! ((p - 1) div 2))"
    using inv unfolding pop_inv_def by blast
  have nth: "\<And>m. swap_at q p c ! m = (if m = c then q ! p else if m = p then q ! c else q ! m)"
    using nth_swap_at[OF pc(2) c(2)] by simp
  have part1: "\<not> cmp (swap_at q p c ! i) (swap_at q p c ! ((i - 1) div 2))"
    if i: "0 < i" "i < length q" "(i - 1) div 2 \<noteq> c" for i
  proof -
    consider (a) "i = c" | (b) "i \<noteq> c" "(i - 1) div 2 = p" | (e) "i = p"
      | (d) "i \<noteq> c" "i \<noteq> p" "(i - 1) div 2 \<noteq> p" by blast
    then show ?thesis
    proof cases
      case a
      then show ?thesis using nth c pc swo_asym[OF swo lt] by simp
    next
      case b
      then have "i \<noteq> p" using i by auto
      then show ?thesis using nth b i pc sib[of i] by simp
    next
      case e
      then have pp: "(p - 1) div 2 < p" using i by auto
      then have "(p - 1) div 2 \<noteq> c" using pc by simp
      then show ?thesis using nth e pp pc inv2[of c] c i by simp
    next
      case d
      then show ?thesis using nth i inv1[of i] by simp
    qed
  qed
  have part2: "\<not> cmp (swap_at q p c ! g) (swap_at q p c ! ((c - 1) div 2))"
    if g: "0 < g" "g < length q" "(g - 1) div 2 = c" for g
  proof -
    have "c < g" using g by auto
    then have "g \<noteq> c" "g \<noteq> p" using pc by auto
    moreover have "\<not> cmp (q ! g) (q ! c)" using inv1[of g] g pc by simp
    ultimately show ?thesis using nth c by simp
  qed
  show ?thesis
    unfolding pop_inv_def length_swap_at using part1 part2 by blast
qed

lemma pop_inv_keep:
  assumes swo: "strict_weak_order cmp"
    and c: "0 < c" "c < length q" "(c - 1) div 2 = p"
    and inv: "pop_inv cmp q p"
    and ge: "\<not> cmp (q ! c) (q ! p)"
    and sib: "\<And>s. 0 < s \<Longrightarrow> s < length q \<Longrightarrow> s \<noteq> c \<Longrightarrow> (s - 1) div 2 = p \<Longrightarrow> \<not> cmp (q ! s) (q ! p)"
  shows "pop_inv cmp q c"
proof -
  have inv1: "\<And>i. 0 < i \<Longrightarrow> i < length q \<Longrightarrow> (i - 1) div 2 \<noteq> p \<Longrightarrow> \<not> cmp (q ! i) (q ! ((i - 1) div 2))"
    using inv unfolding pop_inv_def by blast
  have all: "\<not> cmp (q ! i) (q ! ((i - 1) div 2))" if "0 < i" "i < length q" for i
  proof (cases "(i - 1) div 2 = p")
    case True
    then show ?thesis using sib[of i] ge that by (cases "i = c") auto
  next
    case False
    then show ?thesis using inv1[of i] that by simp
  qed
  have part2: "\<not> cmp (q ! g) (q ! ((c - 1) div 2))"
    if g: "0 < g" "g < length q" "(g - 1) div 2 = c" for g
    using swo_negtrans[OF swo all[OF g(1,2)]] ge g c by simp
  show ?thesis unfolding pop_inv_def using all part2 by blast
qed

lemma pop_inv_step:
  assumes swo: "strict_weak_order cmp"
    and l: "(p + 1) * 2 - 1 < length q"
    and inv: "pop_inv cmp q p"
  shows "pop_inv cmp (pop_next cmp q p) (pop_child cmp q p)"
proof -
  let ?l = "(p + 1) * 2 - 1" and ?r = "(p + 1) * 2"
  have par: "(?l - 1) div 2 = p" "(?r - 1) div 2 = p" "0 < ?l" "0 < ?r" by simp_all
  have only: "s = ?l \<or> s = ?r" if "0 < s" "(s - 1) div 2 = p" for s
    using parent_eq_iff[OF that(1), of p] that(2) by (auto simp: mult.commute)
  show ?thesis
  proof (cases "?r \<ge> length q \<or> cmp (q ! ?l) (q ! ?r)")
    case choose_l: True
    then have ch: "pop_child cmp q p = ?l" by (simp add: pop_child_def)
    show ?thesis
    proof (cases "cmp (q ! ?l) (q ! p)")
      case True
      have "\<not> cmp (q ! s) (q ! ?l)"
        if s: "0 < s" "s < length q" "s \<noteq> ?l" "(s - 1) div 2 = p" for s
        using only[OF s(1,4)] s(2,3) choose_l swo_asym[OF swo] by auto
      then have "pop_inv cmp (swap_at q p ?l) ?l"
        using pop_inv_swap[OF swo par(3) l par(1) inv True] by blast
      then show ?thesis using True by (simp add: pop_next_def ch)
    next
      case False
      have "\<not> cmp (q ! s) (q ! p)"
        if s: "0 < s" "s < length q" "s \<noteq> ?l" "(s - 1) div 2 = p" for s
      proof -
        have "s = ?r" using only[OF s(1,4)] s(3) by blast
        then have "cmp (q ! ?l) (q ! s)" using choose_l s(2) by auto
        then show ?thesis using swo_trans[OF swo, of "q ! ?l" "q ! s" "q ! p"] False by blast
      qed
      then have "pop_inv cmp q ?l"
        using pop_inv_keep[OF swo par(3) l par(1) inv False] by blast
      then show ?thesis using False by (simp add: pop_next_def ch)
    qed
  next
    case choose_r: False
    then have r: "?r < length q" "\<not> cmp (q ! ?l) (q ! ?r)" by auto
    have ch: "pop_child cmp q p = ?r" using choose_r by (simp add: pop_child_def)
    show ?thesis
    proof (cases "cmp (q ! ?r) (q ! p)")
      case True
      have "\<not> cmp (q ! s) (q ! ?r)"
        if s: "0 < s" "s < length q" "s \<noteq> ?r" "(s - 1) div 2 = p" for s
        using only[OF s(1,4)] s(3) r(2) by auto
      then have "pop_inv cmp (swap_at q p ?r) ?r"
        using pop_inv_swap[OF swo par(4) r(1) par(2) inv True] by blast
      then show ?thesis using True by (simp add: pop_next_def ch)
    next
      case False
      have "\<not> cmp (q ! s) (q ! p)"
        if s: "0 < s" "s < length q" "s \<noteq> ?r" "(s - 1) div 2 = p" for s
      proof -
        have "s = ?l" using only[OF s(1,4)] s(3) by blast
        then show ?thesis using swo_negtrans[OF swo r(2) False] by simp
      qed
      then have "pop_inv cmp q ?r"
        using pop_inv_keep[OF swo par(4) r(1) par(2) inv False] by blast
      then show ?thesis using False by (simp add: pop_next_def ch)
    qed
  qed
qed

lemma pop_inv_leaf:
  assumes "\<not> (p + 1) * 2 - 1 < length q" and "pop_inv cmp q p"
  shows "heap_property cmp q"
proof -
  have "(i - 1) div 2 \<noteq> p" if "0 < i" "i < length q" for i
    using that assms(1) by auto
  then show ?thesis using assms(2) unfolding pop_inv_def heap_property_def by auto
qed

lemma popBalance_loop_heap:
  "strict_weak_order cmp \<Longrightarrow> pop_inv cmp q p \<Longrightarrow> heap_property cmp (popBalance_loop cmp q p)"
proof (induction "length q - p" arbitrary: q p rule: less_induct)
  case less
  show ?case
  proof (cases "(p + 1) * 2 - 1 < length q")
    case True
    have "length (pop_next cmp q p) - pop_child cmp q p < length q - p"
      using True pop_child_gt[of p cmp q] pop_child_bound[OF True, of cmp]
      by (simp add: length_pop_next)
    from less.hyps[OF this less.prems(1) pop_inv_step[OF less.prems(1) True less.prems(2)]] True
    show ?thesis by (subst popBalance_loop_unfold) simp
  next
    case False
    then show ?thesis using pop_inv_leaf[OF False less.prems(2)]
      by (subst popBalance_loop_unfold) simp
  qed
qed

lemma length_popBalance_loop: "length (popBalance_loop cmp q p) = length q"
proof (induction "length q - p" arbitrary: q p rule: less_induct)
  case less
  show ?case
  proof (cases "(p + 1) * 2 - 1 < length q")
    case True
    have "length (pop_next cmp q p) - pop_child cmp q p < length q - p"
      using True pop_child_gt[of p cmp q] pop_child_bound[OF True, of cmp]
      by (simp add: length_pop_next)
    from less.hyps[OF this] True
    show ?thesis by (subst popBalance_loop_unfold) (simp add: length_pop_next)
  next
    case False
    then show ?thesis by (subst popBalance_loop_unfold) simp
  qed
qed


lemma mset_pushBalance_loop: "p < length q \<Longrightarrow> mset (pushBalance_loop cmp q p) = mset q"
proof (induction p arbitrary: q rule: less_induct)
  case (less p)
  show ?case
  proof (cases "0 < p")
    case True
    then have lt: "(p - 1) div 2 < p" by simp
    have m: "mset (push_next cmp q p) = mset q"
      using less.prems True by (auto simp: push_next_def Let_def mset_swap_at)
    have "(p - 1) div 2 < length (push_next cmp q p)"
      using less.prems lt by (simp add: length_push_next)
    from less.IH[OF lt this] m True show ?thesis
      by (subst pushBalance_loop_unfold) simp
  next
    case False
    then show ?thesis by (subst pushBalance_loop_unfold) simp
  qed
qed

lemma mset_popBalance_loop: "mset (popBalance_loop cmp q p) = mset q"
proof (induction "length q - p" arbitrary: q p rule: less_induct)
  case less
  show ?case
  proof (cases "(p + 1) * 2 - 1 < length q")
    case True
    have d: "length (pop_next cmp q p) - pop_child cmp q p < length q - p"
      using True pop_child_gt[of p cmp q] pop_child_bound[OF True, of cmp]
      by (simp add: length_pop_next)
    have "p < length q" using True by simp
    then have m: "mset (pop_next cmp q p) = mset q"
      using pop_child_bound[OF True, of cmp] by (simp add: pop_next_def mset_swap_at)
    from less.hyps[OF d] m True show ?thesis
      by (subst popBalance_loop_unfold) simp
  next
    case False
    then show ?thesis by (subst popBalance_loop_unfold) simp
  qed
qed

lemma length_popBalance: "length (popBalance cmp q) = length q - 1"
  by (cases q) (simp_all add: popBalance_def Let_def length_popBalance_loop)

lemma mset_popBalance:
  assumes "q \<noteq> []"
  shows "mset (popBalance cmp q) = mset q - {#q ! 0#}"
proof (cases "length (butlast q) > 0")
  case True
  have q: "q = butlast q @ [last q]" using assms by simp
  have hd: "butlast q ! 0 = q ! 0" using True by (simp add: nth_butlast)
  have "mset ((butlast q)[0 := last q]) = add_mset (last q) (mset (butlast q) - {#q ! 0#})"
    using True hd by (simp add: mset_update)
  also have "\<dots> = add_mset (last q) (mset (butlast q)) - {#q ! 0#}"
  proof -
    have "q ! 0 \<in># mset (butlast q)" using True hd by (metis nth_mem_mset)
    then show ?thesis by (metis add_mset_add_single diff_union_single_conv union_commute)
  qed
  also have "add_mset (last q) (mset (butlast q)) = mset q"
    by (subst (3) q) simp
  finally show ?thesis
    using assms True by (cases q) (simp_all add: popBalance_def Let_def mset_popBalance_loop)
next
  case False
  then obtain x where "q = [x]" using assms
    by (cases q) (auto split: if_splits)
  then show ?thesis by (simp add: popBalance_def Let_def mset_popBalance_loop)
qed

lemma popBalance_heap:
  assumes swo: "strict_weak_order cmp" and h: "heap_property cmp q"
  shows "heap_property cmp (popBalance cmp q)"
proof (cases "length (butlast q) > 0")
  case True
  let ?q2 = "(butlast q)[0 := last q]"
  have "\<not> cmp (?q2 ! i) (?q2 ! ((i - 1) div 2))"
    if i: "0 < i" "i < length ?q2" "(i - 1) div 2 \<noteq> 0" for i
  proof -
    have "i < length q" "i \<in> {1..<length q}" using i by auto
    moreover have "?q2 ! i = q ! i" using i by (simp add: nth_butlast)
    moreover have "(i - 1) div 2 < length (butlast q)" using i by auto
    then have "?q2 ! ((i - 1) div 2) = q ! ((i - 1) div 2)" using i by (simp add: nth_butlast)
    ultimately show ?thesis using h unfolding heap_property_def by auto
  qed
  then have "pop_inv cmp ?q2 0" unfolding pop_inv_def by blast
  from popBalance_loop_heap[OF swo this] True show ?thesis
    by (cases q) (simp_all add: popBalance_def Let_def)
next
  case False
  then have "popBalance cmp q = []"
    by (cases q) (simp_all add: popBalance_def Let_def popBalance_loop_unfold)
  then show ?thesis by (simp add: heap_property_def)
qed

lemma pushBalance_heap:
  assumes swo: "strict_weak_order cmp" and h: "heap_property cmp q"
  shows "heap_property cmp (pushBalance cmp (q @ [v]))"
proof -
  have "\<not> cmp ((q @ [v]) ! i) ((q @ [v]) ! ((i - 1) div 2))"
    if i: "0 < i" "i < length (q @ [v])" "i \<noteq> length q" for i
  proof -
    have "i < length q" using i by simp
    moreover have "(i - 1) div 2 < length q" using \<open>i < length q\<close> by auto
    ultimately show ?thesis using h i unfolding heap_property_def by (auto simp: nth_append)
  qed
  moreover have "\<not> (0 < c \<and> c < length (q @ [v]) \<and> (c - 1) div 2 = length q)" for c
    by auto
  ultimately have "push_inv cmp (q @ [v]) (length q)" unfolding push_inv_def by blast
  from pushBalance_loop_heap[OF swo _ this] show ?thesis by (simp add: pushBalance_def)
qed

lemma heap_root_least:
  assumes swo: "strict_weak_order cmp" and h: "heap_property cmp q"
  shows "i < length q \<Longrightarrow> \<not> cmp (q ! i) (q ! 0)"
proof (induction i rule: less_induct)
  case (less i)
  show ?case
  proof (cases "i = 0")
    case True
    then show ?thesis using swo by (simp add: strict_weak_order_def)
  next
    case False
    then have "(i - 1) div 2 < i" by simp
    moreover have "\<not> cmp (q ! i) (q ! ((i - 1) div 2))"
      using h False less.prems unfolding heap_property_def by auto
    ultimately show ?thesis using less.IH[of "(i - 1) div 2"] less.prems swo_negtrans[OF swo]
      by (meson less_trans)
  qed
qed



section \<open>The heap property after pushes and pops\<close>

lemma fst_run_ops_Cons:
  "fst (run_ops pq (x # xs)) = fst (apply_op pq x) # fst (run_ops (snd (apply_op pq x)) xs)"
  by (simp add: split_beta)

lemma snd_run_ops_Cons:
  "snd (run_ops pq (x # xs)) = snd (run_ops (snd (apply_op pq x)) xs)"
  by (simp add: split_beta)

lemma push_heap:
  "strict_weak_order (compare pq) \<Longrightarrow> heap_property (compare pq) (queue pq) \<Longrightarrow>
   heap_property (compare (push pq v)) (queue (push pq v))"
  by (simp add: push_def pushBalance_heap)

lemma pop_heap:
  "strict_weak_order (compare pq) \<Longrightarrow> heap_property (compare pq) (queue pq) \<Longrightarrow>
   heap_property (compare (snd (pop pq))) (queue (snd (pop pq)))"
  by (auto simp: pop_def popBalance_heap)

lemma compare_apply_op: "compare (snd (apply_op pq x)) = compare pq"
  by (cases x) (simp_all add: push_def pop_def)

lemma apply_op_heap:
  "strict_weak_order (compare pq) \<Longrightarrow> heap_property (compare pq) (queue pq) \<Longrightarrow>
   heap_property (compare pq) (queue (snd (apply_op pq x)))"
  by (cases x) (auto simp: push_def pop_def popBalance_heap pushBalance_heap)

lemma run_ops_heap:
  "strict_weak_order (compare pq) \<Longrightarrow> heap_property (compare pq) (queue pq) \<Longrightarrow>
   heap_property (compare pq) (queue (snd (run_ops pq ops)))"
proof (induction ops arbitrary: pq)
  case Nil
  then show ?case by simp
next
  case (Cons x ops)
  let ?pq1 = "snd (apply_op pq x)"
  have c: "compare ?pq1 = compare pq" by (rule compare_apply_op)
  have "heap_property (compare ?pq1) (queue (snd (run_ops ?pq1 ops)))"
    using Cons.IH[of ?pq1] Cons.prems apply_op_heap[of pq x] c by simp
  then show ?case using c by (simp add: split_beta Let_def)
qed

lemma swo_less: "strict_weak_order (\<lambda>child parent. child < (parent::'a::linorder))"
  unfolding strict_weak_order_def by auto

lemma swo_greater: "strict_weak_order (\<lambda>child parent. child > (parent::'a::linorder))"
  unfolding strict_weak_order_def by auto


text \<open>
  Claim C4, amended. Whatever pushes, pops and gets are made on a queue that starts
  empty, with a comparator that is a strict order in which incomparability is
  transitive (the ascending and the descending preset are, on numbers other than
  \<^verbatim>\<open>NaN\<close>), the backing array has the heap property afterwards: no element at an
  index \<open>i > 0\<close> is before the element at \<open>(i - 1) div 2\<close>.
\<close>

theorem heap_property_after_ops:
  "length_pq pq = 0 \<Longrightarrow> strict_weak_order (compare pq) \<Longrightarrow>
   heap_property (compare pq) (queue (snd (run_ops pq ops)))"
  using run_ops_heap[of pq ops]
  by (simp add: length_pq_def heap_property_def)

theorem heap_property_after_ops_witness:
  "strict_weak_order (\<lambda>child parent. child > (parent::int)) \<and>
   queue (snd (run_ops (PriorityQueue_new None (Some (\<lambda>child parent. child > parent)))
                 [Push (1::int), Push 2, Push 3, Pop, Push 4, Push 5])) = [5, 4, 2, 1] \<and>
   heap_property (\<lambda>child parent. child > parent) [5, 4, 2, 1 :: int]"
proof -
  let ?ops = "[Push (1::int), Push 2, Push 3, Pop, Push 4, Push 5]"
  have s: "strict_weak_order (\<lambda>child parent. child > (parent::int))" by (rule swo_greater)
  have e: "queue (snd (run_ops (PriorityQueue_new None (Some (\<lambda>child parent. child > parent))) ?ops))
           = [5, 4, 2, 1]"
    by (simp add: fst_run_ops_Cons snd_run_ops_Cons pushBalance_loop_unfold popBalance_loop_unfold
        push_next_def pop_next_def pop_child_def push_def pop_def pushBalance_def popBalance_def
        swap_at_def PriorityQueue_new_def MaxQueue_def MinQueue_def Let_def
        del: run_ops.simps(2))
  let ?pq = "PriorityQueue_new None (Some (\<lambda>child parent. child > parent)) :: int PriorityQueue"
  have l: "length_pq ?pq = 0" by (simp add: length_pq_def PriorityQueue_new_def)
  have c: "compare ?pq = (\<lambda>child parent. child > parent)" by (simp add: PriorityQueue_new_def)
  have "heap_property (compare ?pq) (queue (snd (run_ops ?pq ?ops)))"
    using s by (intro heap_property_after_ops[OF l]) (simp only: c)
  then have "heap_property (\<lambda>child parent. child > parent) [5, 4, 2, 1 :: int]"
    unfolding e c .
  with s e show ?thesis by blast
qed

text \<open>
  Claim C4 as stated, for every strict order, fails. Proper divisibility is irreflexive
  and transitive, and the pushes 4, 6, 5, 2 leave the array \<open>[4, 2, 5, 6]\<close>, in which
  the element at index 1 is before its parent: the sift-up moved 2 above 6 and then
  went on with the sibling 5, which it preferred to 2.
\<close>

theorem heap_property_strict_order_counterexample:
  "strict_order proper_divisor \<and>
   queue (snd (run_ops (PriorityQueue_new None (Some proper_divisor))
                 [Push 4, Push 6, Push 5, Push 2])) = [4, 2, 5, 6] \<and>
   \<not> heap_property proper_divisor [4, 2, 5, 6]"
proof -
  have t: "proper_divisor x y \<Longrightarrow> proper_divisor y z \<Longrightarrow> proper_divisor x z" for x y z
    unfolding proper_divisor_def mod_eq_0_iff_dvd
    using dvd_antisym dvd_trans by blast
  have i: "\<not> proper_divisor x x" for x
    by (simp add: proper_divisor_def)
  have s: "strict_order proper_divisor"
    unfolding strict_order_def using t i by blast
  have e: "queue (snd (run_ops (PriorityQueue_new None (Some proper_divisor))
                 [Push 4, Push 6, Push 5, Push 2])) = [4, 2, 5, 6]"
    by (simp add: fst_run_ops_Cons snd_run_ops_Cons pushBalance_loop_unfold
        push_next_def push_def pushBalance_def swap_at_def PriorityQueue_new_def
        proper_divisor_def Let_def del: run_ops.simps(2))
  have h: "\<not> heap_property proper_divisor [4, 2, 5, 6]"
    by (simp add: heap_property_def atLeastLessThan_upt proper_divisor_def)
  from s e h show ?thesis by blast
qed

text \<open>
  The ascending preset itself is such an order once \<^verbatim>\<open>NaN\<close> is among the values:
  the pushes 2, 5, \<^verbatim>\<open>NaN\<close>, 0 leave \<open>[2, 0, NaN, 5]\<close>.
\<close>

lemma heap_property_NaN:
  "strict_order (\<lambda>child parent. child < (parent :: number)) \<and>
   queue (snd (run_ops (MinQueue None) [Push (Num 2), Push (Num 5), Push NaN, Push (Num 0)]))
     = [Num 2, Num 0, NaN, Num 5] \<and>
   \<not> heap_property (\<lambda>child parent. child < parent) [Num 2, Num 0, NaN, Num 5]"
proof -
  have s: "strict_order (\<lambda>child parent. child < (parent :: number))"
    unfolding strict_order_def by (auto simp: less_number_def split: number.splits)
  have e: "queue (snd (run_ops (MinQueue None) [Push (Num 2), Push (Num 5), Push NaN, Push (Num 0)]))
     = [Num 2, Num 0, NaN, Num 5]"
    by (simp add: fst_run_ops_Cons snd_run_ops_Cons pushBalance_loop_unfold
        push_next_def push_def pushBalance_def swap_at_def PriorityQueue_new_def MinQueue_def
        less_number_def Let_def del: run_ops.simps(2))
  have h: "\<not> heap_property (\<lambda>child parent. child < parent) [Num 2, Num 0, NaN, Num 5]"
    by (simp add: heap_property_def atLeastLessThan_upt less_number_def)
  from s e h show ?thesis by blast
qed

section \<open>Popping everything sorts\<close>

lemma pops_sorted:
  assumes swo: "strict_weak_order cmp"
  shows "heap_property cmp (queue pq) \<Longrightarrow> compare pq = cmp \<Longrightarrow> length (queue pq) = n \<Longrightarrow>
    \<exists>ys. fst (run_ops pq (replicate n Pop)) = map Some ys \<and> mset ys = mset (queue pq) \<and>
          sorted_wrt (\<lambda>a b. \<not> cmp b a) ys"
proof (induction n arbitrary: pq)
  case 0
  then show ?case by simp
next
  case (Suc n)
  let ?q = "queue pq"
  let ?pq1 = "snd (pop pq)"
  have ne: "?q \<noteq> []" using Suc.prems(3) by auto
  have r: "fst (pop pq) = Some (?q ! 0)" using ne by (simp add: pop_def)
  have q1: "queue ?pq1 = popBalance cmp ?q" "compare ?pq1 = cmp"
    using ne Suc.prems(2) by (simp_all add: pop_def)
  have h1: "heap_property cmp (queue ?pq1)"
    using popBalance_heap[OF swo Suc.prems(1)] q1 by simp
  have l1: "length (queue ?pq1) = n"
    using q1 Suc.prems(3) by (simp add: length_popBalance)
  from Suc.IH[OF h1 q1(2) l1] obtain ys where
    ys: "fst (run_ops ?pq1 (replicate n Pop)) = map Some ys"
      "mset ys = mset (queue ?pq1)" "sorted_wrt (\<lambda>a b. \<not> cmp b a) ys" by blast
  have m1: "mset (queue ?pq1) = mset ?q - {#?q ! 0#}"
    using q1 mset_popBalance[OF ne] by simp
  have "?q ! 0 \<in># mset ?q" using ne by simp
  then have m: "mset (?q ! 0 # ys) = mset ?q" using ys(2) m1 by simp
  have "\<not> cmp y (?q ! 0)" if "y \<in> set ys" for y
  proof -
    have "y \<in># mset ?q" using that ys(2) m1 by (metis in_diffD set_mset_mset)
    then obtain i where "i < length ?q" "y = ?q ! i" by (auto simp: in_set_conv_nth)
    then show ?thesis using heap_root_least[OF swo Suc.prems(1)] by simp
  qed
  then have s: "sorted_wrt (\<lambda>a b. \<not> cmp b a) (?q ! 0 # ys)" using ys(3) by simp
  have "fst (run_ops pq (replicate (Suc n) Pop)) = map Some (?q ! 0 # ys)"
    using r ys(1) by (simp add: split_beta Let_def)
  then show ?case using m s by blast
qed


text \<open>
  Claim C5, amended. A queue whose backing array \<open>xs\<close> has the heap property and
  holds values that \<^verbatim>\<open><\<close> orders linearly (numbers other than \<^verbatim>\<open>NaN\<close>) gives, in
  \<open>length xs\<close> pops, the elements of \<open>xs\<close> in sorted order: ascending for the
  min configuration, descending for the max configuration.
\<close>

theorem pop_all_sorted:
  fixes xs :: "'a::linorder list"
  shows "(heap_property (\<lambda>child parent. child < parent) xs \<longrightarrow>
            fst (run_ops (MinQueue (Some xs)) (replicate (length xs) Pop)) = map Some (sort xs)) \<and>
         (heap_property (\<lambda>child parent. child > parent) xs \<longrightarrow>
            fst (run_ops (MaxQueue (Some xs)) (replicate (length xs) Pop)) = map Some (rev (sort xs)))"
proof (intro conjI impI)
  assume h: "heap_property (\<lambda>child parent. child < parent) xs"
  obtain ys where ys: "fst (run_ops (MinQueue (Some xs)) (replicate (length xs) Pop)) = map Some ys"
    "mset ys = mset xs" "sorted_wrt (\<lambda>a b. \<not> b < a) ys"
    using pops_sorted[OF swo_less, of "MinQueue (Some xs)" "length xs"] h
    by (auto simp: MinQueue_def PriorityQueue_new_def)
  have "sorted ys" using ys(3) by (simp add: not_less)
  then have "sort xs = ys" using ys(2) by (simp add: properties_for_sort)
  then show "fst (run_ops (MinQueue (Some xs)) (replicate (length xs) Pop)) = map Some (sort xs)"
    using ys(1) by simp
next
  assume h: "heap_property (\<lambda>child parent. child > parent) xs"
  obtain ys where ys: "fst (run_ops (MaxQueue (Some xs)) (replicate (length xs) Pop)) = map Some ys"
    "mset ys = mset xs" "sorted_wrt (\<lambda>a b. \<not> b > a) ys"
    using pops_sorted[OF swo_greater, of "MaxQueue (Some xs)" "length xs"] h
    by (auto simp: MaxQueue_def PriorityQueue_new_def)
  have "sorted_wrt (\<lambda>a b. b \<le> a) ys" using ys(3) by (simp add: not_less)
  then have "sorted (rev ys)" by (simp add: sorted_wrt_rev)
  then have "sort xs = rev ys" using ys(2) by (simp add: properties_for_sort)
  then have "ys = rev (sort xs)" by simp
  then show "fst (run_ops (MaxQueue (Some xs)) (replicate (length xs) Pop)) = map Some (rev (sort xs))"
    using ys(1) by simp
qed

theorem pop_all_sorted_witness:
  "heap_property (\<lambda>child parent. child < parent) [1, 3, 2, 5, 4 :: int] \<and>
   fst (run_ops (MinQueue (Some [1, 3, 2, 5, 4 :: int])) (replicate 5 Pop))
     = [Some 1, Some 2, Some 3, Some 4, Some 5] \<and>
   queue (snd (run_ops (MaxQueue None) [Push (1::int), Push 2, Push 3, Push 4, Push 5])) = [5, 4, 2, 1, 3] \<and>
   heap_property (\<lambda>child parent. child > parent) [5, 4, 2, 1, 3 :: int] \<and>
   fst (run_ops (MaxQueue (Some [5, 4, 2, 1, 3 :: int])) (replicate 5 Pop))
     = [Some 5, Some 4, Some 3, Some 2, Some 1]"
proof -
  have h1: "heap_property (\<lambda>child parent. child < parent) [1, 3, 2, 5, 4 :: int]"
    by (simp add: heap_property_def atLeastLessThan_upt)
  have h2: "heap_property (\<lambda>child parent. child > parent) [5, 4, 2, 1, 3 :: int]"
    by (simp add: heap_property_def atLeastLessThan_upt)
  have b: "queue (snd (run_ops (MaxQueue None) [Push (1::int), Push 2, Push 3, Push 4, Push 5]))
           = [5, 4, 2, 1, 3]"
    by (simp add: fst_run_ops_Cons snd_run_ops_Cons pushBalance_loop_unfold popBalance_loop_unfold
        push_next_def pop_next_def pop_child_def push_def pop_def pushBalance_def popBalance_def
        swap_at_def PriorityQueue_new_def MaxQueue_def MinQueue_def Let_def
        del: run_ops.simps(2))
  have l1: "length [1, 3, 2, 5, 4 :: int] = 5" and l2: "length [5, 4, 2, 1, 3 :: int] = 5"
    by simp_all
  have s1: "map Some (sort [1, 3, 2, 5, 4 :: int]) = [Some 1, Some 2, Some 3, Some 4, Some 5]"
    by simp
  have s2: "map Some (rev (sort [5, 4, 2, 1, 3 :: int])) = [Some 5, Some 4, Some 3, Some 2, Some 1]"
    by simp
  have r1: "fst (run_ops (MinQueue (Some [1, 3, 2, 5, 4 :: int])) (replicate 5 Pop))
     = [Some 1, Some 2, Some 3, Some 4, Some 5]"
    using pop_all_sorted[of "[1, 3, 2, 5, 4 :: int]"] h1 unfolding l1 s1 by blast
  have r2: "fst (run_ops (MaxQueue (Some [5, 4, 2, 1, 3 :: int])) (replicate 5 Pop))
     = [Some 5, Some 4, Some 3, Some 2, Some 1]"
    using pop_all_sorted[of "[5, 4, 2, 1, 3 :: int]"] h2 unfolding l2 s2 by blast
  from h1 r1 b h2 r2 show ?thesis by blast
qed

text \<open>
  Claim C5 as stated, for every multiset of numeric values, fails with \<^verbatim>\<open>NaN\<close>: the
  array \<open>[3, NaN, 5, 1]\<close> has the heap property for the min configuration, since no
  comparison with \<^verbatim>\<open>NaN\<close> is true, and four pops give 3, 1, 5, \<^verbatim>\<open>NaN\<close>, with 3
  before 1.
\<close>

theorem pop_all_NaN_counterexample:
  "heap_property (\<lambda>child parent. child < parent) [Num 3, NaN, Num 5, Num 1] \<and>
   fst (run_ops (MinQueue (Some [Num 3, NaN, Num 5, Num 1])) (replicate 4 Pop))
     = [Some (Num 3), Some (Num 1), Some (Num 5), Some NaN] \<and>
   Num 1 < Num 3"
proof -
  have h: "heap_property (\<lambda>child parent. child < parent) [Num 3, NaN, Num 5, Num 1]"
    by (simp add: heap_property_def atLeastLessThan_upt less_number_def)
  have r: "replicate 4 Pop = [Pop, Pop, Pop, Pop :: number pq_op]"
    by (simp add: eval_nat_numeral)
  have e: "fst (run_ops (MinQueue (Some [Num 3, NaN, Num 5, Num 1])) (replicate 4 Pop))
     = [Some (Num 3), Some (Num 1), Some (Num 5), Some NaN]"
    unfolding r
    by (simp add: fst_run_ops_Cons snd_run_ops_Cons popBalance_loop_unfold
        pop_next_def pop_child_def pop_def popBalance_def swap_at_def PriorityQueue_new_def
        MinQueue_def less_number_def Let_def del: run_ops.simps(2))
  have l: "Num 1 < Num 3" by (simp add: less_number_def)
  from h e l show ?thesis by blast
qed

section \<open>The size of the queue\<close>

fun is_push :: "'a pq_op \<Rightarrow> bool" where
  "is_push (Push v) = True"
| "is_push _ = False"

fun is_pop :: "'a pq_op \<Rightarrow> bool" where
  "is_pop Pop = True"
| "is_pop _ = False"

definition count_pushes :: "'a pq_op list \<Rightarrow> nat" where
  "count_pushes ops = length (filter is_push ops)"

definition count_pops :: "'a pq_op list \<Rightarrow> nat" where
  "count_pops ops = length (filter is_pop ops)"

text \<open>No pop meets an empty queue: every prefix has at most as many pops as pushes.\<close>

definition no_pop_on_empty :: "'a pq_op list \<Rightarrow> bool" where
  "no_pop_on_empty ops \<longleftrightarrow>
     (\<forall>n \<in> {..length ops}. count_pops (take n ops) \<le> count_pushes (take n ops))"

lemma length_pushBalance: "length (pushBalance cmp q) = length q"
  by (simp add: pushBalance_def length_pushBalance_loop)

lemma size_run_ops:
  "(\<forall>n \<in> {..length ops}. count_pops (take n ops) \<le> length (queue pq) + count_pushes (take n ops)) \<Longrightarrow>
   length (queue (snd (run_ops pq ops))) + count_pops ops = length (queue pq) + count_pushes ops"
proof (induction ops arbitrary: pq)
  case Nil
  then show ?case by (simp add: count_pops_def count_pushes_def)
next
  case (Cons x ops)
  have pre: "count_pops (x # take n ops) \<le> length (queue pq) + count_pushes (x # take n ops)"
    if "n \<le> length ops" for n
  proof -
    have "Suc n \<in> {..length (x # ops)}" using that by simp
    from Cons.prems[rule_format, OF this] show ?thesis by simp
  qed
  show ?case
  proof (cases x)
    case (Push v)
    let ?pq1 = "push pq v"
    have l1: "length (queue ?pq1) = Suc (length (queue pq))"
      by (simp add: push_def length_pushBalance)
    have "count_pops (take n ops) \<le> length (queue ?pq1) + count_pushes (take n ops)"
      if "n \<le> length ops" for n
      using pre[OF that] Push l1 by (simp add: count_pops_def count_pushes_def)
    then have "\<forall>n \<in> {..length ops}. count_pops (take n ops) \<le> length (queue ?pq1) + count_pushes (take n ops)"
      by simp
    from Cons.IH[OF this] show ?thesis
      using Push l1 by (simp add: split_beta count_pops_def count_pushes_def)
  next
    case Pop
    let ?pq1 = "snd (pop pq)"
    have "count_pops (x # take 0 ops) \<le> length (queue pq) + count_pushes (x # take 0 ops)"
      by (rule pre) simp
    then have pos: "queue pq \<noteq> []"
      using Pop by (auto simp: count_pops_def count_pushes_def)
    then have l1: "Suc (length (queue ?pq1)) = length (queue pq)"
      by (simp add: pop_def length_popBalance)
    have "count_pops (take n ops) \<le> length (queue ?pq1) + count_pushes (take n ops)"
      if "n \<le> length ops" for n
      using pre[OF that] Pop l1 by (simp add: count_pops_def count_pushes_def)
    then have "\<forall>n \<in> {..length ops}. count_pops (take n ops) \<le> length (queue ?pq1) + count_pushes (take n ops)"
      by simp
    from Cons.IH[OF this] show ?thesis
      using Pop l1 by (simp add: split_beta count_pops_def count_pushes_def)
  next
    case Get
    have "count_pops (take n ops) \<le> length (queue pq) + count_pushes (take n ops)"
      if "n \<le> length ops" for n
      using pre[OF that] Get by (simp add: count_pops_def count_pushes_def)
    then have "\<forall>n \<in> {..length ops}. count_pops (take n ops) \<le> length (queue pq) + count_pushes (take n ops)"
      by simp
    from Cons.IH[OF this] show ?thesis
      using Get by (simp add: split_beta count_pops_def count_pushes_def)
  qed
qed


text \<open>
  Claim C9, amended. When no pop meets an empty queue, that is when every prefix of the
  calls has at most as many pops as pushes, the length after \<open>k\<close> pushes and \<open>j\<close>
  pops on a queue that starts empty is \<open>k - j\<close>, whatever its comparator. A pop or a
  get on an empty queue returns the empty result and leaves the queue as it is.
\<close>

theorem size_after_ops:
  "(length_pq pq0 = 0 \<and> no_pop_on_empty ops \<longrightarrow>
      length_pq (snd (run_ops pq0 ops)) = count_pushes ops - count_pops ops) \<and>
   (length_pq pq = 0 \<longrightarrow> pop pq = (None, pq) \<and> get pq = None)"
proof (intro conjI impI)
  assume a0: "length_pq pq0 = 0 \<and> no_pop_on_empty ops"
  then have a: "\<forall>n \<in> {..length ops}.
      count_pops (take n ops) \<le> length (queue pq0) + count_pushes (take n ops)"
    by (simp add: no_pop_on_empty_def length_pq_def)
  have "length (queue (snd (run_ops pq0 ops))) + count_pops ops
        = length (queue pq0) + count_pushes ops"
    using a by (rule size_run_ops)
  then show "length_pq (snd (run_ops pq0 ops)) = count_pushes ops - count_pops ops"
    using a0 by (simp add: length_pq_def)
next
  assume "length_pq pq = 0"
  then show "pop pq = (None, pq)" by (simp add: length_pq_def pop_def)
next
  assume "length_pq pq = 0"
  then show "get pq = None" by (simp add: length_pq_def get_def)
qed

theorem size_after_ops_witness:
  "length_pq (MaxQueue None :: int PriorityQueue) = 0 \<and>
   no_pop_on_empty [Push (7::int), Pop, Push 3, Push 5, Pop] \<and>
   length_pq (snd (run_ops (MaxQueue None) [Push (7::int), Pop, Push 3, Push 5, Pop])) = 1 \<and>
   pop (MaxQueue None :: int PriorityQueue) = (None, MaxQueue None) \<and>
   get (MaxQueue None :: int PriorityQueue) = None"
proof -
  let ?ops = "[Push (7::int), Pop, Push 3, Push 5, Pop]"
  have h: "no_pop_on_empty ?ops"
    by (simp add: no_pop_on_empty_def count_pops_def count_pushes_def atMost_upto)
  have e: "length_pq (MaxQueue None :: int PriorityQueue) = 0"
    by (simp add: length_pq_def MaxQueue_def PriorityQueue_new_def)
  have c: "count_pushes ?ops - count_pops ?ops = 1"
    by (simp add: count_pops_def count_pushes_def)
  note t = size_after_ops[of "MaxQueue None :: int PriorityQueue" ?ops "MaxQueue None"]
  have r1: "length_pq (snd (run_ops (MaxQueue None) ?ops)) = 1"
    using t h e unfolding c by blast
  have r2: "pop (MaxQueue None :: int PriorityQueue) = (None, MaxQueue None)
      \<and> get (MaxQueue None :: int PriorityQueue) = None"
    using t e by blast
  from e h r1 r2 show ?thesis by blast
qed

text \<open>
  Claim C9 as stated, for every interleaving with \<open>j \<le> k\<close>, fails: a pop before the
  only push finds the queue empty and removes nothing, so one element remains.
\<close>

theorem size_k_minus_j_counterexample:
  "count_pops [Pop, Push (1::int)] \<le> count_pushes [Pop, Push (1::int)] \<and>
   length_pq (snd (run_ops (PriorityQueue_new None None) [Pop, Push (1::int)]))
     \<noteq> count_pushes [Pop, Push (1::int)] - count_pops [Pop, Push (1::int)]"
  by (simp add: fst_run_ops_Cons snd_run_ops_Cons pushBalance_loop_unfold popBalance_loop_unfold
        push_next_def pop_next_def pop_child_def push_def pop_def pushBalance_def popBalance_def
        swap_at_def PriorityQueue_new_def length_pq_def count_pops_def count_pushes_def Let_def
        del: run_ops.simps(2))

section \<open>The default comparator\<close>

text \<open>
  Claim C10. A queue constructed without a comparator and a \<^verbatim>\<open>MinQueue\<close> constructed
  from the same initial sequence return the same results and reach the same state on
  every sequence of calls.
\<close>

theorem default_comparator_is_MinQueue:
  "run_ops (PriorityQueue_new init None) ops = run_ops (MinQueue init) ops"
  by (simp add: MinQueue_def PriorityQueue_new_def)


section \<open>Graph construction\<close>

text \<open>
  Claim C6 at the edge list \<open>[(1, 1, 5)]\<close>. Neither lookup finds the key 1, so two
  vertex objects with the key 1 are made; the edge goes on the first and the table keeps
  the second, which has no edge: the self-loop is not on the vertex stored under 1.
\<close>

theorem self_loop_lost:
  "heap (create [(1::int, 1::int, 5::int)]) =
     [\<lparr>val = 1, edges = [\<lparr>vertex = 1, cost = 5\<rparr>]\<rparr>, \<lparr>val = 1, edges = []\<rparr>] \<and>
   lookup (create [(1::int, 1::int, 5::int)]) 1 = Some 1 \<and>
   out_edges (create [(1::int, 1::int, 5::int)]) 1 = []"
  by (simp add: create_def new_Vertex_def out_edges_def)


text \<open>
  Claim C7 at the edge list \<open>[(1, 1, 5), (1, 2, 3)]\<close> and its permutation
  \<open>[(1, 2, 3), (1, 1, 5)]\<close>. In the first order the self-loop is lost as above, in the
  second the key 1 is in the table when the self-loop comes and the edge is kept: the
  vertex stored under 1 has one outgoing edge in one graph and two in the other.
\<close>

theorem create_order_dependent:
  "mset [(1::int, 1::int, 5::int), (1, 2, 3)] = mset [(1, 2, 3), (1, 1, 5)] \<and>
   out_edges (create [(1::int, 1::int, 5::int), (1, 2, 3)]) 1 = [(2, 3)] \<and>
   out_edges (create [(1::int, 2::int, 3::int), (1, 1, 5)]) 1 = [(2, 3), (1, 5)]"
  by (simp add: create_def new_Vertex_def out_edges_def)

section \<open>Runs of Dijkstra\<close>

lemma dijkstra_iters_numeral:
  "dijkstra_iters (numeral n) h s =
     (case dijkstra_iter h s of None \<Rightarrow> None | Some s' \<Rightarrow> dijkstra_iters (pred_numeral n) h s')"
  by (simp add: numeral_eq_Suc)

lemma let_arg_cong: "a = b \<Longrightarrow> Let a f = Let b f"
  by simp

lemmas eval_simps = dijkstra_def pop_def push_def pushBalance_def popBalance_def
    pushBalance_loop_unfold popBalance_loop_unfold push_next_def pop_next_def pop_child_def
    swap_at_def distance_compare_def js_add_def Let_def

lemma heap_scenario:
  "heap (create scenario) =
     [\<lparr>val = 1, edges = [\<lparr>vertex = 1, cost = 2\<rparr>, \<lparr>vertex = 2, cost = 4\<rparr>]\<rparr>,
      \<lparr>val = 2, edges = [\<lparr>vertex = 3, cost = 7\<rparr>, \<lparr>vertex = 2, cost = 1\<rparr>]\<rparr>,
      \<lparr>val = 3, edges = [\<lparr>vertex = 4, cost = 3\<rparr>]\<rparr>,
      \<lparr>val = 4, edges = [\<lparr>vertex = 5, cost = 1\<rparr>]\<rparr>,
      \<lparr>val = 5, edges = [\<lparr>vertex = 3, cost = 2\<rparr>, \<lparr>vertex = 5, cost = 5\<rparr>]\<rparr>,
      \<lparr>val = 6, edges = []\<rparr>]"
  by (simp add: scenario_def create_def new_Vertex_def)

lemma lookup_scenario: "lookup (create scenario) 1 = Some 0"
  by (simp add: scenario_def create_def new_Vertex_def)

lemma heap_stale_graph:
  "heap (create stale_graph) =
     [\<lparr>val = 3, edges = [\<lparr>vertex = 1, cost = 1\<rparr>, \<lparr>vertex = 4, cost = 4\<rparr>]\<rparr>,
      \<lparr>val = 4, edges = [\<lparr>vertex = 3, cost = 1\<rparr>]\<rparr>,
      \<lparr>val = 2, edges = [\<lparr>vertex = 0, cost = 5\<rparr>, \<lparr>vertex = 4, cost = 5\<rparr>, \<lparr>vertex = 7, cost = 4\<rparr>]\<rparr>,
      \<lparr>val = 8, edges = [\<lparr>vertex = 4, cost = 1\<rparr>]\<rparr>,
      \<lparr>val = 9, edges = []\<rparr>,
      \<lparr>val = 10, edges = [\<lparr>vertex = 3, cost = 4\<rparr>, \<lparr>vertex = 0, cost = 1\<rparr>]\<rparr>,
      \<lparr>val = 1, edges = [\<lparr>vertex = 2, cost = 1\<rparr>, \<lparr>vertex = 5, cost = 1\<rparr>]\<rparr>,
      \<lparr>val = 6, edges = []\<rparr>]"
  by (simp add: stale_graph_def create_def new_Vertex_def)

lemma lookup_stale_graph:
  "lookup (create stale_graph) 1 = Some 6" "lookup (create stale_graph) 9 = Some 4"
  by (simp_all add: stale_graph_def create_def new_Vertex_def)

text \<open>
  Claim C2, amended. On the edge list of the driver, from the vertex with key 1,
  \<^verbatim>\<open>Graph.dijkstra\<close> returns exactly the map
  \<open>{1: 0, 2: 2, 3: 3, 4: 8, 5: 6, 6: 9}\<close>: the vertex 4 is reached at best over
  1, 2, 3, 5 at cost 8, and the vertex 6 from there at cost 9.
\<close>

theorem scenario_distances:
  "dijkstra_at (create scenario) 1 = Some [1 \<mapsto> 0, 2 \<mapsto> 2, 3 \<mapsto> 3, 4 \<mapsto> 8, 5 \<mapsto> 6, 6 \<mapsto> 9]"
  by (simp add: dijkstra_at_def lookup_scenario heap_scenario eval_simps fun_upd_twist
      cong: let_arg_cong)

text \<open>Claim C2 as stated, with 7 for the key 4 and 8 for the key 6, fails.\<close>

theorem scenario_distances_counterexample:
  "dijkstra_at (create scenario) 1 \<noteq> Some [1 \<mapsto> 0, 2 \<mapsto> 2, 3 \<mapsto> 3, 4 \<mapsto> 7, 5 \<mapsto> 6, 6 \<mapsto> 8]"
proof
  assume "dijkstra_at (create scenario) 1 = Some [1 \<mapsto> 0, 2 \<mapsto> 2, 3 \<mapsto> 3, 4 \<mapsto> 7, 5 \<mapsto> 6, 6 \<mapsto> 8]"
  then have "distance_at (create scenario) 1 4 = Some 7" by (simp add: distance_at_def)
  moreover have "distance_at (create scenario) 1 4 = Some 8"
    by (simp add: distance_at_def dijkstra_at_def lookup_scenario heap_scenario eval_simps
        cong: let_arg_cong)
  ultimately show False by simp
qed

text \<open>
  Claim C1 at the edge list \<open>stale_graph\<close>, all of whose costs are positive, from the
  vertex with key 1. The walk over the keys 1, 10, 3, 4, 8, 9 costs 5, and
  \<^verbatim>\<open>Graph.dijkstra\<close> returns 6 for the key 9: not the minimum over all paths.
\<close>

theorem dijkstra_not_minimal:
  "list_all (\<lambda>(src, dst, c). 0 \<le> c) stale_graph \<and>
   lookup (create stale_graph) 1 = Some 6 \<and>
   lookup (create stale_graph) 9 = Some 4 \<and>
   walk_cost (heap (create stale_graph)) 6
     [\<lparr>vertex = 5, cost = 1\<rparr>, \<lparr>vertex = 0, cost = 1\<rparr>, \<lparr>vertex = 1, cost = 1\<rparr>,
      \<lparr>vertex = 3, cost = 1\<rparr>, \<lparr>vertex = 4, cost = 1\<rparr>] = Some (4, 5) \<and>
   distance_at (create stale_graph) 1 9 = Some 6"
proof -
  have a: "list_all (\<lambda>(src, dst, c). 0 \<le> c) stale_graph" by (simp add: stale_graph_def)
  have w: "walk_cost (heap (create stale_graph)) 6
     [\<lparr>vertex = 5, cost = 1\<rparr>, \<lparr>vertex = 0, cost = 1\<rparr>, \<lparr>vertex = 1, cost = 1\<rparr>,
      \<lparr>vertex = 3, cost = 1\<rparr>, \<lparr>vertex = 4, cost = 1\<rparr>] = Some (4, 5)"
    by (simp add: heap_stale_graph)
  have d: "distance_at (create stale_graph) 1 9 = Some 6"
    by (simp add: distance_at_def dijkstra_at_def lookup_stale_graph heap_stale_graph eval_simps
        cong: let_arg_cong)
  from a lookup_stale_graph w d show ?thesis by blast
qed

lemma heap_stale_root_graph:
  "heap (create stale_root_graph) =
     [\<lparr>val = 1, edges = [\<lparr>vertex = 1, cost = 1\<rparr>, \<lparr>vertex = 2, cost = 4\<rparr>, \<lparr>vertex = 4, cost = 3\<rparr>,
                         \<lparr>vertex = 5, cost = 3\<rparr>, \<lparr>vertex = 6, cost = 3\<rparr>]\<rparr>,
      \<lparr>val = 7, edges = [\<lparr>vertex = 3, cost = 3\<rparr>, \<lparr>vertex = 2, cost = 1\<rparr>]\<rparr>,
      \<lparr>val = 8, edges = [\<lparr>vertex = 3, cost = 1\<rparr>]\<rparr>,
      \<lparr>val = 6, edges = []\<rparr>,
      \<lparr>val = 2, edges = []\<rparr>,
      \<lparr>val = 4, edges = []\<rparr>,
      \<lparr>val = 3, edges = []\<rparr>]"
  by (simp add: stale_root_graph_def create_def new_Vertex_def)

lemma lookup_stale_root_graph: "lookup (create stale_root_graph) 1 = Some 0"
  by (simp add: stale_root_graph_def create_def new_Vertex_def)


lemma stale_entry_unvisited:
  "(case dijkstra_iters 2 (heap (create stale_graph)) ({}, [1 \<mapsto> 0], [6]) of
      None \<Rightarrow> False
    | Some (visited, distance, q) \<Rightarrow>
        map (\<lambda>a. val (heap (create stale_graph) ! a)) q = [10, 6, 9, 3] \<and> distance 3 = Some 6) \<and>
   (case dijkstra_iters 3 (heap (create stale_graph)) ({}, [1 \<mapsto> 0], [6]) of
      None \<Rightarrow> False
    | Some (visited, distance, q) \<Rightarrow>
        map (\<lambda>a. val (heap (create stale_graph) ! a)) q = [3, 6, 9, 3, 8] \<and> distance 3 = Some 2) \<and>
   (case dijkstra_iters 5 (heap (create stale_graph)) ({}, [1 \<mapsto> 0], [6]) of
      None \<Rightarrow> False
    | Some (visited, distance, q) \<Rightarrow>
        map (\<lambda>a. val (heap (create stale_graph) ! a)) q = [8, 4, 9, 6, 9] \<and>
        8 \<notin> visited \<and> 4 \<notin> visited \<and>
        map (\<lambda>a. distance (val (heap (create stale_graph) ! a))) q
          = [Some 5, Some 3, Some 6, Some 5, Some 6] \<and>
        map_option (\<lambda>a. val (heap (create stale_graph) ! a))
          (fst (pop \<lparr>queue = q, compare = distance_compare (heap (create stale_graph)) distance\<rparr>))
          = Some 8)"
  by (simp add: heap_stale_graph eval_simps dijkstra_iters_numeral cong: let_arg_cong)

lemma stale_entry_next_pop:
  "lookup (create stale_root_graph) 1 = Some 0 \<and>
   (case dijkstra_iters 1 (heap (create stale_root_graph)) ({}, [1 \<mapsto> 0], [0]) of
      None \<Rightarrow> False
    | Some (visited, distance, q) \<Rightarrow>
        map (\<lambda>a. val (heap (create stale_root_graph) ! a)) q = [7, 4, 2, 8, 3] \<and>
        distance 8 = Some 4) \<and>
   (case dijkstra_iters 2 (heap (create stale_root_graph)) ({}, [1 \<mapsto> 0], [0]) of
      None \<Rightarrow> False
    | Some (visited, distance, q) \<Rightarrow>
        map (\<lambda>a. val (heap (create stale_root_graph) ! a)) q = [8, 4, 3, 8, 6, 2] \<and>
        distance 8 = Some 2 \<and> distance 6 = Some 4) \<and>
   (case dijkstra_iters 3 (heap (create stale_root_graph)) ({}, [1 \<mapsto> 0], [0]) of
      None \<Rightarrow> False
    | Some (visited, distance, q) \<Rightarrow>
        map (\<lambda>a. val (heap (create stale_root_graph) ! a)) q = [2, 4, 3, 8, 6, 6] \<and>
        map (\<lambda>a. distance (val (heap (create stale_root_graph) ! a))) q
          = [Some 3, Some 3, Some 3, Some 2, Some 3, Some 3] \<and>
        map_option (\<lambda>a. val (heap (create stale_root_graph) ! a))
          (fst (pop \<lparr>queue = q,
                     compare = distance_compare (heap (create stale_root_graph)) distance\<rparr>))
          = Some 2)"
  by (simp add: lookup_stale_root_graph heap_stale_root_graph eval_simps dijkstra_iters_numeral
      cong: let_arg_cong)

text \<open>
  Claim C3 in two runs of \<^verbatim>\<open>Graph.dijkstra\<close>, each from the vertex with key 1.

  On \<open>stale_root_graph\<close>: after one round a vertex with key 8 is in the queue, at
  distance 4. The second round lowers the distance of key 8 to 2 and pushes the vertex
  again; the old entry stays at index 3, below an entry at distance 3. The third round
  lowers the distance of key 6, which is in the queue as well, from 4 to 3. The pop that
  follows returns the vertex with key 2, at distance 3, while the old entry with key
  8, at distance 2, is queued: the entry whose distance was lowered has not been sorted.

  On \<open>stale_graph\<close>, the run of claim C1: after two rounds a vertex with key 3 is in
  the queue, at distance 6; the third round lowers the distance of key 3 to 2. After
  five rounds the queue holds the keys 8, 4, 9, 6, 9 at the distances 5, 3, 6, 5, 6,
  neither 8 nor 4 visited yet, and the next pop returns the vertex with key 8, at
  distance 5.
\<close>

theorem stale_entry_pop_not_minimal:
  "(lookup (create stale_root_graph) 1 = Some 0 \<and>
   (case dijkstra_iters 1 (heap (create stale_root_graph)) ({}, [1 \<mapsto> 0], [0]) of
      None \<Rightarrow> False
    | Some (visited, distance, q) \<Rightarrow>
        map (\<lambda>a. val (heap (create stale_root_graph) ! a)) q = [7, 4, 2, 8, 3] \<and>
        distance 8 = Some 4) \<and>
   (case dijkstra_iters 2 (heap (create stale_root_graph)) ({}, [1 \<mapsto> 0], [0]) of
      None \<Rightarrow> False
    | Some (visited, distance, q) \<Rightarrow>
        map (\<lambda>a. val (heap (create stale_root_graph) ! a)) q = [8, 4, 3, 8, 6, 2] \<and>
        distance 8 = Some 2 \<and> distance 6 = Some 4) \<and>
   (case dijkstra_iters 3 (heap (create stale_root_graph)) ({}, [1 \<mapsto> 0], [0]) of
      None \<Rightarrow> False
    | Some (visited, distance, q) \<Rightarrow>
        map (\<lambda>a. val (heap (create stale_root_graph) ! a)) q = [2, 4, 3, 8, 6, 6] \<and>
        map (\<lambda>a. distance (val (heap (create stale_root_graph) ! a))) q
          = [Some 3, Some 3, Some 3, Some 2, Some 3, Some 3] \<and>
        map_option (\<lambda>a. val (heap (create stale_root_graph) ! a))
          (fst (pop \<lparr>queue = q,
                     compare = distance_compare (heap (create stale_root_graph)) distance\<rparr>))
          = Some 2)) \<and>
   ((case dijkstra_iters 2 (heap (create stale_graph)) ({}, [1 \<mapsto> 0], [6]) of
      None \<Rightarrow> False
    | Some (visited, distance, q) \<Rightarrow>
        map (\<lambda>a. val (heap (create stale_graph) ! a)) q = [10, 6, 9, 3] \<and> distance 3 = Some 6) \<and>
   (case dijkstra_iters 3 (heap (create stale_graph)) ({}, [1 \<mapsto> 0], [6]) of
      None \<Rightarrow> False
    | Some (visited, distance, q) \<Rightarrow>
        map (\<lambda>a. val (heap (create stale_graph) ! a)) q = [3, 6, 9, 3, 8] \<and> distance 3 = Some 2) \<and>
   (case dijkstra_iters 5 (heap (create stale_graph)) ({}, [1 \<mapsto> 0], [6]) of
      None \<Rightarrow> False
    | Some (visited, distance, q) \<Rightarrow>
        map (\<lambda>a. val (heap (create stale_graph) ! a)) q = [8, 4, 9, 6, 9] \<and>
        8 \<notin> visited \<and> 4 \<notin> visited \<and>
        map (\<lambda>a. distance (val (heap (create stale_graph) ! a))) q
          = [Some 5, Some 3, Some 6, Some 5, Some 6] \<and>
        map_option (\<lambda>a. val (heap (create stale_graph) ! a))
          (fst (pop \<lparr>queue = q, compare = distance_compare (heap (create stale_graph)) distance\<rparr>))
          = Some 8))"
  using stale_entry_next_pop stale_entry_unvisited by (rule conjI)

section \<open>Breadth-first traversal\<close>


















end
